theory Spec2Isabelle
  imports Main "HOL-Library.Word" "HOL-Library.Finite_Map" "HOL-Library.Multiset"
begin

section \<open>Data model of atomicstore.go\<close>

text \<open>
  Keys and values of the store are Go values of type \<^verbatim>\<open>interface{}\<close>. The model keeps
  the dynamic types that matter to the code: a value is nil, a bool, an integer or a
  string. All of them are comparable, so every one may be a key of a Go map.
\<close>

datatype dyn = DNil | DBool bool | DInt int | DStr string

text \<open>\<^verbatim>\<open>type KV map[interface{}]interface{}\<close>\<close>

type_synonym KV = "(dyn, dyn) fmap"

text \<open>
  The run-time panics of the code: a failed type assertion \<^verbatim>\<open>key.(string)\<close> (with the
  value that was not a string) and the call of a nil func value.
\<close>

datatype panic = TypeAssertion dyn | NilFunc

text \<open>
  What the store does to the outside: a callback invoked through one of the six
  callback fields, with its arguments, and a \<^verbatim>\<open>cond.Broadcast()\<close>. Callbacks are
  opaque user functions; the model records each call and assumes the callback itself
  does not touch the store.
\<close>

datatype event =
    OnInsert string dyn
  | OnUpdate string dyn
  | OnRemove string dyn
  | OnBatchInsert KV
  | OnBatchUpdate KV
  | OnBatchRemove KV
  | Broadcast

record options =
  unique :: bool
  runCallbacks :: bool

text \<open>
  \<^verbatim>\<open>type Store struct\<close>. \<open>cond\<close> is True iff the pointer \<^verbatim>\<open>s.cond\<close> is not nil; each
  callback field is True iff the func value it holds is not nil; \<open>count\<close> is the uint64 of
  the atomic counter; \<open>syncMap\<close> is the embedded \<^verbatim>\<open>sync.Map\<close>; \<open>events\<close> is the trace of
  callback calls and broadcasts made so far. The mutex \<^verbatim>\<open>cond.L\<close> is free before and
  after every operation of a single thread (each Lock has a deferred Unlock), so it has
  no field.
\<close>

record Store =
  cond :: bool
  count :: "64 word"
  onInsert :: bool
  onUpdate :: bool
  onRemove :: bool
  onBatchInsert :: bool
  onBatchUpdate :: bool
  onBatchRemove :: bool
  syncMap :: KV
  events :: "event list"

text \<open>\<^verbatim>\<open>defaultCallback\<close> and \<^verbatim>\<open>defaultBatchCallback\<close> are func literals, so not nil.\<close>

definition defaultCallback :: bool where
  "defaultCallback = True"

definition defaultBatchCallback :: bool where
  "defaultBatchCallback = True"

definition lockable :: "Store \<Rightarrow> bool" where
  "lockable s = cond s"

text \<open>
  Modelled from the spec: the package atomiccounter is not under src/. Its contract is
  \<^verbatim>\<open>New() -> Counter, Inc(), Dec(), Get() -> uint64\<close>; the counter is a uint64, so Inc and
  Dec add and subtract one modulo \<open>2 ^ 64\<close>.
\<close>

definition counter_New :: "64 word" where
  "counter_New = 0"

definition Inc :: "64 word \<Rightarrow> 64 word" where
  "Inc c = c + 1"

definition Dec :: "64 word \<Rightarrow> 64 word" where
  "Dec c = c - 1"

definition Len :: "Store \<Rightarrow> 64 word" where
  "Len s = count s"

text \<open>The type assertion \<^verbatim>\<open>key.(string)\<close>.\<close>

fun assert_string :: "dyn \<Rightarrow> panic + string" where
  "assert_string (DStr x) = Inr x"
| "assert_string v = Inl (TypeAssertion v)"

text \<open>
  A call \<^verbatim>\<open>f(key.(string), v)\<close> of a callback field: Go evaluates the arguments first, so
  a key that is not a string panics before the func value is called; calling nil panics.
\<close>

definition invoke :: "bool \<Rightarrow> (string \<Rightarrow> dyn \<Rightarrow> event) \<Rightarrow> dyn \<Rightarrow> dyn \<Rightarrow> Store \<Rightarrow> (panic + unit) \<times> Store" where
  "invoke f tag k v s =
     (case assert_string k of
        Inl p \<Rightarrow> (Inl p, s)
      | Inr x \<Rightarrow> if f then (Inr (), s\<lparr>events := events s @ [tag x v]\<rparr>) else (Inl NilFunc, s))"

text \<open>\<^verbatim>\<open>Get\<close>: \<^verbatim>\<open>sync.Map.Load\<close>, which returns \<^verbatim>\<open>(nil, false)\<close> for an absent key.\<close>

definition Get :: "dyn \<Rightarrow> Store \<Rightarrow> dyn \<times> bool" where
  "Get k s = (case fmlookup (syncMap s) k of Some v \<Rightarrow> (v, True) | None \<Rightarrow> (DNil, False))"

text \<open>
  \<^verbatim>\<open>func (s *Store) insert(key, val interface{}, o options)\<close>. Every operation returns the
  store it leaves behind together with its result or its panic: what was written before a
  panic stays written.
\<close>

definition insert_internal :: "dyn \<Rightarrow> dyn \<Rightarrow> options \<Rightarrow> Store \<Rightarrow> (panic + dyn \<times> bool) \<times> Store" where
  "insert_internal k v opts s =
     (if unique opts then
        (case fmlookup (syncMap s) k of
           Some resp \<Rightarrow> (Inr (resp, True), s)
         | None \<Rightarrow>
             (let s1 = s\<lparr>syncMap := fmupd k v (syncMap s)\<rparr>;
                  s2 = s1\<lparr>count := Inc (count s1)\<rparr>
              in if runCallbacks opts \<and> onInsert s2 then
                   (case invoke (onInsert s2) OnInsert k v s2 of
                      (Inl p, s3) \<Rightarrow> (Inl p, s3)
                    | (Inr _, s3) \<Rightarrow> (Inr (v, False), s3))
                 else (Inr (v, False), s2)))
      else
        (let ex = snd (Get k s);
             s1 = s\<lparr>syncMap := fmupd k v (syncMap s)\<rparr>
         in if \<not> ex then
              (let s2 = s1\<lparr>count := Inc (count s1)\<rparr>
               in if runCallbacks opts then
                    (case invoke (onInsert s2) OnInsert k v s2 of
                       (Inl p, s3) \<Rightarrow> (Inl p, s3)
                     | (Inr _, s3) \<Rightarrow> (Inr (v, ex), s3))
                  else (Inr (v, ex), s2))
            else if runCallbacks opts then
              (case invoke (onUpdate s1) OnUpdate k v s1 of
                 (Inl p, s3) \<Rightarrow> (Inl p, s3)
               | (Inr _, s3) \<Rightarrow> (Inr (v, ex), s3))
            else (Inr (v, ex), s1)))"

definition Insert :: "string \<Rightarrow> dyn \<Rightarrow> Store \<Rightarrow> (panic + dyn \<times> bool) \<times> Store" where
  "Insert k v s = insert_internal (DStr k) v \<lparr>unique = False, runCallbacks = True\<rparr> s"

definition InsertUnique :: "string \<Rightarrow> dyn \<Rightarrow> Store \<Rightarrow> (panic + dyn \<times> bool) \<times> Store" where
  "InsertUnique k v s = insert_internal (DStr k) v \<lparr>unique = True, runCallbacks = True\<rparr> s"

text \<open>\<^verbatim>\<open>func (s *Store) remove(key interface{}, o options)\<close>\<close>

definition remove_internal :: "dyn \<Rightarrow> options \<Rightarrow> Store \<Rightarrow> (panic + dyn \<times> bool) \<times> Store" where
  "remove_internal k opts s =
     (case Get k s of
        (resp, True) \<Rightarrow>
          (let s1 = s\<lparr>count := Dec (count s)\<rparr>;
               s2 = s1\<lparr>syncMap := fmdrop k (syncMap s1)\<rparr>
           in if runCallbacks opts then
                (case invoke (onRemove s2) OnRemove k resp s2 of
                   (Inl p, s3) \<Rightarrow> (Inl p, s3)
                 | (Inr _, s3) \<Rightarrow> (Inr (resp, True), s3))
              else (Inr (resp, True), s2))
      | (_, False) \<Rightarrow> (Inr (DNil, False), s))"

text \<open>\<^verbatim>\<open>Remove\<close> passes \<^verbatim>\<open>options{runCallbacks: true}\<close>; \<open>unique\<close> has its zero value.\<close>

definition Remove :: "dyn \<Rightarrow> Store \<Rightarrow> (panic + bool) \<times> Store" where
  "Remove k s =
     (case remove_internal k \<lparr>unique = False, runCallbacks = True\<rparr> s of
        (Inl p, s') \<Rightarrow> (Inl p, s')
      | (Inr (_, success), s') \<Rightarrow> (Inr success, s'))"

text \<open>
  \<^verbatim>\<open>sync.Map.Range(f)\<close>, from its documentation: \<open>f\<close> is called once for each key, in no
  specified order, with the value the key has when it is visited; a key deleted before
  its visit is skipped; the walk stops when \<open>f\<close> returns false, and a panic of \<open>f\<close> ends it.
  The order is the list \<open>ks\<close> of the keys the walk visits. \<open>f\<close> is a closure that may change
  the store or its captured variables, so it transforms a state \<open>'st\<close>, from which \<open>m\<close>
  reads the map.
\<close>

fun Range :: "dyn list \<Rightarrow> ('st \<Rightarrow> KV) \<Rightarrow> (dyn \<Rightarrow> dyn \<Rightarrow> 'st \<Rightarrow> (panic + bool) \<times> 'st) \<Rightarrow> 'st \<Rightarrow> (panic + unit) \<times> 'st" where
  "Range [] m f st = (Inr (), st)"
| "Range (k # ks) m f st =
     (case fmlookup (m st) k of
        None \<Rightarrow> Range ks m f st
      | Some v \<Rightarrow>
          (case f k v st of
             (Inl p, st') \<Rightarrow> (Inl p, st')
           | (Inr True, st') \<Rightarrow> Range ks m f st'
           | (Inr False, st') \<Rightarrow> (Inr (), st')))"

text \<open>A visiting order of the keys of a map: every key once.\<close>

definition visits :: "dyn list \<Rightarrow> KV \<Rightarrow> bool" where
  "visits ks m \<longleftrightarrow> distinct ks \<and> set ks = fset (fmdom m)"

text \<open>
  \<^verbatim>\<open>GetKeyMap\<close>. The closure passed to Range writes the local map \<open>keys\<close>, which the
  state of the walk carries next to the store.
\<close>

definition GetKeyMap_visit :: "dyn \<Rightarrow> dyn \<Rightarrow> Store \<times> (string, bool) fmap \<Rightarrow> (panic + bool) \<times> Store \<times> (string, bool) fmap" where
  "GetKeyMap_visit k v st =
     (case assert_string k of
        Inl p \<Rightarrow> (Inl p, st)
      | Inr x \<Rightarrow> (Inr True, (fst st, fmupd x True (snd st))))"

definition GetKeyMap :: "dyn list \<Rightarrow> Store \<Rightarrow> panic + (string, bool) fmap" where
  "GetKeyMap ks s =
     (case Range ks (\<lambda>st. syncMap (fst st)) GetKeyMap_visit (s, fmempty) of
        (Inl p, _) \<Rightarrow> Inl p
      | (Inr _, st) \<Rightarrow> Inr (snd st))"

definition NotifyDidChange :: "Store \<Rightarrow> Store" where
  "NotifyDidChange s = (if lockable s then s\<lparr>events := events s @ [Broadcast]\<rparr> else s)"

text \<open>\<^verbatim>\<open>Flush\<close>. The closure passed to Range calls \<^verbatim>\<open>s.Remove(k.(string))\<close> and returns true.\<close>

definition Flush_visit :: "dyn \<Rightarrow> dyn \<Rightarrow> Store \<Rightarrow> (panic + bool) \<times> Store" where
  "Flush_visit k v st =
     (case assert_string k of
        Inl p \<Rightarrow> (Inl p, st)
      | Inr x \<Rightarrow>
          (case Remove (DStr x) st of
             (Inl p, st') \<Rightarrow> (Inl p, st')
           | (Inr _, st') \<Rightarrow> (Inr True, st')))"

definition Flush :: "dyn list \<Rightarrow> Store \<Rightarrow> (panic + unit) \<times> Store" where
  "Flush ks s =
     (case Range ks syncMap Flush_visit s of
        (Inl p, s') \<Rightarrow> (Inl p, s')
      | (Inr _, s') \<Rightarrow> (Inr (), if lockable s' then s'\<lparr>events := events s' @ [Broadcast]\<rparr> else s'))"

definition OnInsertHandler :: "bool \<Rightarrow> Store \<Rightarrow> Store" where
  "OnInsertHandler f s = s\<lparr>onInsert := f\<rparr>"

definition OnUpdateHandler :: "bool \<Rightarrow> Store \<Rightarrow> Store" where
  "OnUpdateHandler f s = s\<lparr>onUpdate := f\<rparr>"

definition OnRemoveHandler :: "bool \<Rightarrow> Store \<Rightarrow> Store" where
  "OnRemoveHandler f s = s\<lparr>onRemove := f\<rparr>"

definition OnBatchInsertHandler :: "bool \<Rightarrow> Store \<Rightarrow> Store" where
  "OnBatchInsertHandler f s = s\<lparr>onBatchInsert := f\<rparr>"

definition OnBatchUpdateHandler :: "bool \<Rightarrow> Store \<Rightarrow> Store" where
  "OnBatchUpdateHandler f s = s\<lparr>onBatchUpdate := f\<rparr>"

definition OnBatchRemoveHandler :: "bool \<Rightarrow> Store \<Rightarrow> Store" where
  "OnBatchRemoveHandler f s = s\<lparr>onBatchRemove := f\<rparr>"

definition New :: "bool \<Rightarrow> Store" where
  "New l = \<lparr>cond = l, count = counter_New,
            onInsert = defaultCallback, onUpdate = defaultCallback, onRemove = defaultCallback,
            onBatchInsert = defaultBatchCallback, onBatchUpdate = defaultBatchCallback,
            onBatchRemove = defaultBatchCallback,
            syncMap = fmempty, events = []\<rparr>"

section \<open>Data model of batch.go\<close>

datatype opp = oppInsert | oppInsertUnique | oppRemove

text \<open>
  \<^verbatim>\<open>type job struct\<close>, with \<open>method_j\<close> and \<open>value_j\<close> for its fields \<^verbatim>\<open>method\<close> and
  \<^verbatim>\<open>value\<close>; a remove job leaves \<^verbatim>\<open>value\<close> nil.
\<close>

record job = method_j :: opp
  key :: dyn
  value_j :: dyn

text \<open>
  \<^verbatim>\<open>type batch struct\<close>. The field \<^verbatim>\<open>store\<close> is a pointer to the one store of the model; the
  operations of a batch take that store as an argument and return it updated.
\<close>

record batch =
  jobs :: "job list"
  created :: KV
  updated :: KV
  deleted :: KV

definition Batch :: "Store \<Rightarrow> batch" where
  "Batch s = \<lparr>jobs = [], created = fmempty, updated = fmempty, deleted = fmempty\<rparr>"

definition batch_Insert :: "dyn \<Rightarrow> dyn \<Rightarrow> batch \<Rightarrow> batch" where
  "batch_Insert k v b = b\<lparr>jobs := jobs b @ [\<lparr>method_j = oppInsert, key = k, value_j = v\<rparr>]\<rparr>"

definition batch_InsertUnique :: "dyn \<Rightarrow> dyn \<Rightarrow> batch \<Rightarrow> batch" where
  "batch_InsertUnique k v b = b\<lparr>jobs := jobs b @ [\<lparr>method_j = oppInsertUnique, key = k, value_j = v\<rparr>]\<rparr>"

definition batch_Remove :: "dyn \<Rightarrow> batch \<Rightarrow> batch" where
  "batch_Remove k b = b\<lparr>jobs := jobs b @ [\<lparr>method_j = oppRemove, key = k, value_j = DNil\<rparr>]\<rparr>"

text \<open>
  Modelled from the spec: the method \<^verbatim>\<open>Len\<close> of \<^verbatim>\<open>KV\<close> that \<^verbatim>\<open>Execute\<close> calls is not under
  src/. The spec has each batch callback fire "if non-empty", so \<open>Len\<close> is the number of
  entries.
\<close>

definition KV_Len :: "KV \<Rightarrow> nat" where
  "KV_Len m = fcard (fmdom m)"

text \<open>\<^verbatim>\<open>func (b *batch) do(j *job, wg *sync.WaitGroup)\<close>\<close>

definition do_job :: "job \<Rightarrow> batch \<times> Store \<Rightarrow> (panic + unit) \<times> batch \<times> Store" where
  "do_job j bs =
     (let b = fst bs; s = snd bs in
      case method_j j of
        oppRemove \<Rightarrow>
          (case remove_internal (key j) \<lparr>unique = False, runCallbacks = False\<rparr> s of
             (Inl p, s') \<Rightarrow> (Inl p, b, s')
           | (Inr (doc, success), s') \<Rightarrow>
               if success then (Inr (), b\<lparr>deleted := fmupd (key j) doc (deleted b)\<rparr>, s')
               else (Inr (), b, s'))
      | _ \<Rightarrow>
          (let uniq = (method_j j = oppInsertUnique) in
           case insert_internal (key j) (value_j j) \<lparr>unique = uniq, runCallbacks = False\<rparr> s of
             (Inl p, s') \<Rightarrow> (Inl p, b, s')
           | (Inr (doc, ex), s') \<Rightarrow>
               if \<not> ex then (Inr (), b\<lparr>created := fmupd (key j) doc (created b)\<rparr>, s')
               else if \<not> uniq then (Inr (), b\<lparr>updated := fmupd (key j) doc (updated b)\<rparr>, s')
               else (Inr (), b, s')))"

text \<open>
  The goroutines that \<^verbatim>\<open>Execute\<close> starts, one for each job, up to \<^verbatim>\<open>wg.Wait()\<close>. The model
  runs them one after the other, in the order \<open>sched\<close> in which they take effect: each
  \<open>do\<close> is taken as one step. A panic in a goroutine ends the program.
\<close>

fun run_jobs :: "job list \<Rightarrow> batch \<times> Store \<Rightarrow> (panic + unit) \<times> batch \<times> Store" where
  "run_jobs [] bs = (Inr (), bs)"
| "run_jobs (j # js) bs =
     (case do_job j bs of
        (Inl p, bs') \<Rightarrow> (Inl p, bs')
      | (Inr _, bs') \<Rightarrow> run_jobs js bs')"

text \<open>A schedule of a batch: its jobs, each once, in any order.\<close>

definition schedule :: "job list \<Rightarrow> batch \<Rightarrow> bool" where
  "schedule sched b \<longleftrightarrow> mset sched = mset (jobs b)"

definition fire_batch :: "bool \<Rightarrow> (KV \<Rightarrow> event) \<Rightarrow> KV \<Rightarrow> Store \<Rightarrow> Store" where
  "fire_batch f tag m s =
     (if KV_Len m > 0 \<and> f then s\<lparr>events := events s @ [tag m]\<rparr> else s)"

definition Execute :: "job list \<Rightarrow> batch \<Rightarrow> Store \<Rightarrow> (panic + unit) \<times> batch \<times> Store" where
  "Execute sched b s =
     (case run_jobs sched (b, s) of
        (Inl p, bs') \<Rightarrow> (Inl p, bs')
      | (Inr _, b', s') \<Rightarrow>
          (let s1 = fire_batch (onBatchInsert s') OnBatchInsert (created b') s';
               s2 = fire_batch (onBatchUpdate s1) OnBatchUpdate (updated b') s1;
               s3 = fire_batch (onBatchRemove s2) OnBatchRemove (deleted b') s2
           in (Inr (), b', s3)))"

section \<open>Notions used to state the properties\<close>

text \<open>Whether a Go value has the dynamic type string, so that \<^verbatim>\<open>key.(string)\<close> succeeds on it.\<close>

fun is_string :: "dyn \<Rightarrow> bool" where
  "is_string (DStr x) = True"
| "is_string v = False"

text \<open>Every key of a map is a string.\<close>

definition string_keys :: "KV \<Rightarrow> bool" where
  "string_keys m \<longleftrightarrow> (\<forall>k \<in> fmdom' m. is_string k)"

text \<open>
  The call of the remove callback that \<^verbatim>\<open>Remove\<close> makes for a key of the map \<open>m\<close>: one
  call, with the key and the value it had in \<open>m\<close>.
\<close>

fun remove_event :: "KV \<Rightarrow> dyn \<Rightarrow> event list" where
  "remove_event m (DStr x) = (case fmlookup m (DStr x) of Some v \<Rightarrow> [OnRemove x v] | None \<Rightarrow> [])"
| "remove_event m k = []"

text \<open>The number of keys present in the store.\<close>

definition nkeys :: "Store \<Rightarrow> nat" where
  "nkeys s = fcard (fmdom (syncMap s))"

text \<open>
  The stores a single thread gets from \<^verbatim>\<open>New\<close> by any sequence of \<^verbatim>\<open>Insert\<close>,
  \<^verbatim>\<open>InsertUnique\<close>, \<^verbatim>\<open>Remove\<close> and \<^verbatim>\<open>Flush\<close>; the walk of a \<^verbatim>\<open>Flush\<close> visits the keys
  present, in any order.
\<close>

inductive reach :: "Store \<Rightarrow> bool" where
  reach_New: "reach (New l)"
| reach_Insert: "reach s \<Longrightarrow> reach (snd (Insert k v s))"
| reach_InsertUnique: "reach s \<Longrightarrow> reach (snd (InsertUnique k v s))"
| reach_Remove: "reach s \<Longrightarrow> reach (snd (Remove k s))"
| reach_Flush: "reach s \<Longrightarrow> visits ks (syncMap s) \<Longrightarrow> reach (snd (Flush ks s))"

text \<open>
  What holds of every such store: the counter is the number of keys, the keys are
  strings, and the three callbacks that the operations call are not nil.
\<close>

definition store_inv :: "Store \<Rightarrow> bool" where
  "store_inv s \<longleftrightarrow>
     count s = of_nat (nkeys s) \<and> string_keys (syncMap s) \<and> onInsert s \<and> onUpdate s \<and> onRemove s"

text \<open>The keys of the insert and insert-unique jobs of a list of jobs, one for each job.\<close>

definition insert_keys :: "job list \<Rightarrow> dyn list" where
  "insert_keys js = map key (filter (\<lambda>j. method_j j \<noteq> oppRemove) js)"

text \<open>
  A job that cannot change a store: an insert-unique of a key that is present, or a
  remove of a key that is absent.
\<close>

definition ineffective :: "job \<Rightarrow> Store \<Rightarrow> bool" where
  "ineffective j s \<longleftrightarrow>
     (method_j j = oppInsertUnique \<and> fmlookup (syncMap s) (key j) \<noteq> None) \<or>
     (method_j j = oppRemove \<and> fmlookup (syncMap s) (key j) = None)"

section \<open>Single operations\<close>

lemma Get_simps:
  "fmlookup (syncMap s) k = Some v \<Longrightarrow> Get k s = (v, True)"
  "fmlookup (syncMap s) k = None \<Longrightarrow> Get k s = (DNil, False)"
  by (simp_all add: Get_def)

section \<open>The scenario of a single key\<close>

text \<open>
  C2. On the store \<open>New(true)\<close>, \<open>Insert("k","v1")\<close> returns \<open>("v1", false)\<close>, then
  \<open>Insert("k","v2")\<close> returns \<open>("v2", true)\<close>, \<open>Get("k")\<close> returns \<open>("v2", true)\<close>,
  \<open>Remove("k")\<close> returns true, and a last \<open>Get("k")\<close> finds nothing.
\<close>

theorem C2_scenario:
  "fst (Insert ''k'' (DStr ''v1'') (New True)) = Inr (DStr ''v1'', False) \<and>
   fst (Insert ''k'' (DStr ''v2'') (snd (Insert ''k'' (DStr ''v1'') (New True)))) = Inr (DStr ''v2'', True) \<and>
   Get (DStr ''k'') (snd (Insert ''k'' (DStr ''v2'') (snd (Insert ''k'' (DStr ''v1'') (New True)))))
     = (DStr ''v2'', True) \<and>
   fst (Remove (DStr ''k'') (snd (Insert ''k'' (DStr ''v2'') (snd (Insert ''k'' (DStr ''v1'') (New True))))))
     = Inr True \<and>
   snd (Get (DStr ''k'') (snd (Remove (DStr ''k'')
     (snd (Insert ''k'' (DStr ''v2'') (snd (Insert ''k'' (DStr ''v1'') (New True)))))))) = False"
  by (simp add: Insert_def Remove_def insert_internal_def remove_internal_def Get_def New_def
      invoke_def Inc_def Dec_def counter_New_def defaultCallback_def defaultBatchCallback_def Let_def)

lemma insert_unique_present:
  "fmlookup (syncMap s) k = Some r \<Longrightarrow>
   insert_internal k v \<lparr>unique = True, runCallbacks = rc\<rparr> s = (Inr (r, True), s)"
  by (simp add: insert_internal_def)

lemma insert_unique_absent_quiet:
  "fmlookup (syncMap s) k = None \<Longrightarrow>
   insert_internal k v \<lparr>unique = True, runCallbacks = False\<rparr> s
     = (Inr (v, False), s\<lparr>syncMap := fmupd k v (syncMap s), count := count s + 1\<rparr>)"
  by (simp add: insert_internal_def Inc_def Let_def)

lemma insert_plain_quiet:
  "insert_internal k v \<lparr>unique = False, runCallbacks = False\<rparr> s
     = (Inr (v, fmlookup (syncMap s) k \<noteq> None),
        if fmlookup (syncMap s) k = None
        then s\<lparr>syncMap := fmupd k v (syncMap s), count := count s + 1\<rparr>
        else s\<lparr>syncMap := fmupd k v (syncMap s)\<rparr>)"
  by (auto simp add: insert_internal_def Inc_def Let_def Get_def split: option.splits)

lemma InsertUnique_absent:
  "fmlookup (syncMap s) (DStr k) = None \<Longrightarrow>
   InsertUnique k v s
     = (Inr (v, False),
        s\<lparr>syncMap := fmupd (DStr k) v (syncMap s), count := count s + 1,
          events := (if onInsert s then events s @ [OnInsert k v] else events s)\<rparr>)"
  by (simp add: InsertUnique_def insert_internal_def Inc_def Let_def invoke_def)

lemma InsertUnique_present:
  "fmlookup (syncMap s) (DStr k) = Some r \<Longrightarrow> InsertUnique k v s = (Inr (r, True), s)"
  by (simp add: InsertUnique_def insert_unique_present)

lemma Insert_absent:
  "fmlookup (syncMap s) (DStr k) = None \<Longrightarrow> onInsert s \<Longrightarrow>
   Insert k v s
     = (Inr (v, False),
        s\<lparr>syncMap := fmupd (DStr k) v (syncMap s), count := count s + 1,
          events := events s @ [OnInsert k v]\<rparr>)"
  by (simp add: Insert_def insert_internal_def Inc_def Let_def invoke_def Get_def)

lemma Insert_present:
  "fmlookup (syncMap s) (DStr k) = Some r \<Longrightarrow> onUpdate s \<Longrightarrow>
   Insert k v s
     = (Inr (v, True),
        s\<lparr>syncMap := fmupd (DStr k) v (syncMap s), events := events s @ [OnUpdate k v]\<rparr>)"
  by (simp add: Insert_def insert_internal_def Inc_def Let_def invoke_def Get_def)

lemma remove_absent:
  "fmlookup (syncMap s) k = None \<Longrightarrow> remove_internal k opts s = (Inr (DNil, False), s)"
  by (simp add: remove_internal_def Get_def)

lemma remove_present_quiet:
  "fmlookup (syncMap s) k = Some r \<Longrightarrow>
   remove_internal k \<lparr>unique = u, runCallbacks = False\<rparr> s
     = (Inr (r, True), s\<lparr>count := count s - 1, syncMap := fmdrop k (syncMap s)\<rparr>)"
  by (simp add: remove_internal_def Get_def Dec_def Let_def)

lemma Remove_absent:
  "fmlookup (syncMap s) k = None \<Longrightarrow> Remove k s = (Inr False, s)"
  by (simp add: Remove_def remove_absent)

lemma Remove_present_string:
  "fmlookup (syncMap s) (DStr k) = Some r \<Longrightarrow> onRemove s \<Longrightarrow>
   Remove (DStr k) s
     = (Inr True, s\<lparr>count := count s - 1, syncMap := fmdrop (DStr k) (syncMap s),
                    events := events s @ [OnRemove k r]\<rparr>)"
  by (simp add: Remove_def remove_internal_def Get_def Dec_def Let_def invoke_def)

lemma Remove_present_nil:
  "fmlookup (syncMap s) (DStr k) = Some r \<Longrightarrow> \<not> onRemove s \<Longrightarrow>
   Remove (DStr k) s
     = (Inl NilFunc, s\<lparr>count := count s - 1, syncMap := fmdrop (DStr k) (syncMap s)\<rparr>)"
  by (simp add: Remove_def remove_internal_def Get_def Dec_def Let_def invoke_def)

lemma Remove_present_other:
  "fmlookup (syncMap s) k = Some r \<Longrightarrow> assert_string k = Inl p \<Longrightarrow>
   Remove k s
     = (Inl p, s\<lparr>count := count s - 1, syncMap := fmdrop k (syncMap s)\<rparr>)"
  by (simp add: Remove_def remove_internal_def Get_def Dec_def Let_def invoke_def)

text \<open>
  C4. InsertUnique never overwrites: on a store where the key \<open>k\<close> is absent,
  \<open>InsertUnique(k, v1)\<close> stores \<open>v1\<close>, a following \<open>InsertUnique(k, v2)\<close> returns \<open>v1\<close> with
  existedBefore true, and \<open>Get(k)\<close> then returns \<open>v1\<close>.
\<close>

theorem C4_InsertUnique_never_overwrites:
  assumes "fmlookup (syncMap s) (DStr k) = None"
  shows "fst (InsertUnique k v1 s) = Inr (v1, False) \<and>
         fst (InsertUnique k v2 (snd (InsertUnique k v1 s))) = Inr (v1, True) \<and>
         Get (DStr k) (snd (InsertUnique k v2 (snd (InsertUnique k v1 s)))) = (v1, True)"
  using assms by (simp add: InsertUnique_absent InsertUnique_present Get_def)

text \<open>C4 on the empty store, with the values 1 and 2.\<close>

theorem C4_witness:
  "fmlookup (syncMap (New False)) (DStr ''k'') = None \<and>
   Get (DStr ''k'') (snd (InsertUnique ''k'' (DInt 2) (snd (InsertUnique ''k'' (DInt 1) (New False)))))
     = (DInt 1, True)"
proof -
  have h: "fmlookup (syncMap (New False)) (DStr ''k'') = None"
    by (simp add: New_def)
  show ?thesis
    using h C4_InsertUnique_never_overwrites [OF h, of "DInt 1" "DInt 2"] by simp
qed

lemma assert_string_is_string: "is_string k \<Longrightarrow> \<exists>x. k = DStr x"
  by (cases k) simp_all

section \<open>The walk of Flush\<close>

lemma Flush_visit_string:
  "fmlookup (syncMap s) (DStr x) = Some v \<Longrightarrow> onRemove s \<Longrightarrow>
   Flush_visit (DStr x) v s
     = (Inr True, s\<lparr>count := count s - 1, syncMap := fmdrop (DStr x) (syncMap s),
                    events := events s @ [OnRemove x v]\<rparr>)"
  by (simp add: Flush_visit_def Remove_present_string)

lemma remove_event_drop:
  "k \<noteq> k' \<Longrightarrow> remove_event (fmdrop k' m) k = remove_event m k"
  by (cases k) simp_all

lemma Flush_loop:
  "distinct ks \<Longrightarrow> set ks \<subseteq> fmdom' (syncMap s) \<Longrightarrow> \<forall>k \<in> set ks. is_string k \<Longrightarrow> onRemove s \<Longrightarrow>
   Range ks syncMap Flush_visit s
     = (Inr (), s\<lparr>count := count s - of_nat (length ks),
                  syncMap := fmdrop_set (set ks) (syncMap s),
                  events := events s @ concat (map (remove_event (syncMap s)) ks)\<rparr>)"
proof (induction ks arbitrary: s)
  case Nil
  then show ?case by simp
next
  case (Cons k ks)
  from Cons.prems obtain x where k: "k = DStr x"
    using assert_string_is_string by auto
  from Cons.prems obtain v where v: "fmlookup (syncMap s) k = Some v"
    by (auto simp: fmlookup_dom'_iff)
  let ?s1 = "s\<lparr>count := count s - 1, syncMap := fmdrop k (syncMap s),
                 events := events s @ [OnRemove x v]\<rparr>"
  have step: "Flush_visit k v s = (Inr True, ?s1)"
    using v Cons.prems(4) unfolding k by (rule Flush_visit_string)
  have notin: "k \<notin> set ks" using Cons.prems(1) by simp
  have sub: "set ks \<subseteq> fmdom' (syncMap ?s1)"
    using Cons.prems(2) notin by auto
  have ih: "Range ks syncMap Flush_visit ?s1
     = (Inr (), ?s1\<lparr>count := count ?s1 - of_nat (length ks),
                  syncMap := fmdrop_set (set ks) (syncMap ?s1),
                  events := events ?s1 @ concat (map (remove_event (syncMap ?s1)) ks)\<rparr>)"
    using Cons.prems by (intro Cons.IH sub) simp_all
  have ev: "map (remove_event (fmdrop k (syncMap s))) ks = map (remove_event (syncMap s)) ks"
    using notin by (intro map_cong refl remove_event_drop) auto
  have hd: "remove_event (syncMap s) k = [OnRemove x v]"
    using v by (simp add: k)
  show ?case
    using v step ih ev hd by simp
qed

lemma Range_empty_map:
  "syncMap (fst st) = fmempty \<Longrightarrow> Range ks (\<lambda>st. syncMap (fst st)) f st = (Inr (), st)"
  by (induction ks) simp_all

lemma GetKeyMap_empty: "syncMap s = fmempty \<Longrightarrow> GetKeyMap ks s = Inr fmempty"
  by (simp add: GetKeyMap_def Range_empty_map)

lemma visits_length: "visits ks m \<Longrightarrow> length ks = fcard (fmdom m)"
  unfolding visits_def by (metis distinct_card fcard.rep_eq)

lemma Flush_strings:
  assumes "visits ks (syncMap s)" "string_keys (syncMap s)" "onRemove s"
  shows "Flush ks s
     = (Inr (), s\<lparr>count := count s - of_nat (nkeys s), syncMap := fmempty,
                  events := events s @ concat (map (remove_event (syncMap s)) ks)
                            @ (if lockable s then [Broadcast] else [])\<rparr>)"
proof -
  have d: "distinct ks" and st: "set ks = fmdom' (syncMap s)"
    using assms(1) by (simp_all add: visits_def fmdom'_alt_def)
  have str: "\<forall>k \<in> set ks. is_string k"
    using assms(2) st by (simp add: string_keys_def)
  have len: "length ks = nkeys s"
    using assms(1) by (simp add: visits_length nkeys_def)
  have "Range ks syncMap Flush_visit s
     = (Inr (), s\<lparr>count := count s - of_nat (length ks),
                  syncMap := fmdrop_set (set ks) (syncMap s),
                  events := events s @ concat (map (remove_event (syncMap s)) ks)\<rparr>)"
    using d st str assms(3) by (intro Flush_loop) simp_all
  then show ?thesis
    by (simp add: Flush_def st len lockable_def)
qed

section \<open>The counter is the number of keys\<close>

lemma fcard_upd_absent:
  "fmlookup m k = None \<Longrightarrow> fcard (finsert k (fmdom m)) = Suc (fcard (fmdom m))"
  by (simp add: fcard_finsert_if fmlookup_dom_iff)

lemma fcard_upd_present:
  "fmlookup m k = Some r \<Longrightarrow> fcard (finsert k (fmdom m)) = fcard (fmdom m)"
  by (simp add: fcard_finsert_if fmlookup_dom_iff)

lemma fcard_drop_present:
  "fmlookup m k = Some r \<Longrightarrow> fcard (fmdom m) = Suc (fcard (fmdom m |-| {|k|}))"
  by (metis fcard_Suc_fminus1 fmdomI)

lemma string_keys_upd: "string_keys m \<Longrightarrow> string_keys (fmupd (DStr k) v m)"
  by (simp add: string_keys_def)

lemma string_keys_drop: "string_keys m \<Longrightarrow> string_keys (fmdrop k m)"
  by (simp add: string_keys_def)

lemma store_inv_New: "store_inv (New l)"
  by (simp add: store_inv_def New_def nkeys_def counter_New_def string_keys_def
      defaultCallback_def fcard_fempty)

lemma store_inv_Insert:
  assumes "store_inv s"
  shows "store_inv (snd (Insert k v s)) \<and> \<not> isl (fst (Insert k v s))"
proof (cases "fmlookup (syncMap s) (DStr k)")
  case None
  then show ?thesis
    using assms
    by (simp add: store_inv_def Insert_absent string_keys_upd nkeys_def fcard_upd_absent)
next
  case (Some r)
  then show ?thesis
    using assms
    by (simp add: store_inv_def Insert_present string_keys_upd nkeys_def fcard_upd_present)
qed

lemma store_inv_InsertUnique:
  assumes "store_inv s"
  shows "store_inv (snd (InsertUnique k v s)) \<and> \<not> isl (fst (InsertUnique k v s))"
proof (cases "fmlookup (syncMap s) (DStr k)")
  case None
  then show ?thesis
    using assms
    by (simp add: store_inv_def InsertUnique_absent string_keys_upd nkeys_def fcard_upd_absent)
next
  case (Some r)
  then show ?thesis
    using assms by (simp add: InsertUnique_present)
qed

lemma store_inv_Remove:
  assumes "store_inv s"
  shows "store_inv (snd (Remove k s)) \<and> \<not> isl (fst (Remove k s))"
proof (cases "fmlookup (syncMap s) k")
  case None
  then show ?thesis
    using assms by (simp add: Remove_absent)
next
  case (Some r)
  then have "k \<in> fmdom' (syncMap s)"
    by (simp add: fmlookup_dom'_iff)
  then obtain x where k: "k = DStr x"
    using assms assert_string_is_string by (auto simp: store_inv_def string_keys_def)
  have c: "of_nat (nkeys s) - 1 = (of_nat (fcard (fmdom (fmdrop k (syncMap s)))) :: 64 word)"
    using fcard_drop_present [OF Some] by (simp add: nkeys_def)
  show ?thesis
    using Some assms c unfolding k
    by (simp add: store_inv_def Remove_present_string string_keys_drop nkeys_def)
qed

lemma store_inv_Flush:
  assumes "store_inv s" "visits ks (syncMap s)"
  shows "store_inv (snd (Flush ks s)) \<and> fst (Flush ks s) = Inr ()"
  using assms
  by (simp add: store_inv_def Flush_strings nkeys_def string_keys_def fcard_fempty)

lemma reach_store_inv: "reach s \<Longrightarrow> store_inv s"
proof (induction rule: reach.induct)
  case (reach_New l)
  show ?case by (rule store_inv_New)
next
  case (reach_Insert s k v)
  then show ?case by (simp add: store_inv_Insert)
next
  case (reach_InsertUnique s k v)
  then show ?case by (simp add: store_inv_InsertUnique)
next
  case (reach_Remove s k)
  then show ?case by (simp add: store_inv_Remove)
next
  case (reach_Flush s ks)
  then show ?case by (simp add: store_inv_Flush)
qed

text \<open>
  C1. After every sequence of Insert, InsertUnique, Remove and Flush applied by a single
  thread to a store made by New, \<open>Len()\<close> is the number of keys present: the uint64 it
  returns is that number, read as a natural number whenever the number of keys is below
  \<open>2 ^ 64\<close>. On such a store none of the four operations panics, so every sequence runs
  to its end.
\<close>

theorem C1_Len_is_number_of_keys:
  assumes "reach s"
  shows "Len s = of_nat (nkeys s) \<and>
         (nkeys s < 2 ^ 64 \<longrightarrow> unat (Len s) = nkeys s) \<and>
         \<not> isl (fst (Insert k v s)) \<and> \<not> isl (fst (InsertUnique k v s)) \<and>
         \<not> isl (fst (Remove kd s)) \<and>
         (visits ks (syncMap s) \<longrightarrow> fst (Flush ks s) = Inr ())"
proof -
  have i: "store_inv s"
    using assms by (rule reach_store_inv)
  then have c: "count s = of_nat (nkeys s)"
    by (simp add: store_inv_def)
  have u: "nkeys s < 2 ^ 64 \<Longrightarrow> unat (of_nat (nkeys s) :: 64 word) = nkeys s"
    by (simp add: unat_of_nat)
  have ops: "\<not> isl (fst (Insert k v s))" "\<not> isl (fst (InsertUnique k v s))"
    "\<not> isl (fst (Remove kd s))"
    using i by (simp_all add: store_inv_Insert store_inv_InsertUnique store_inv_Remove)
  have fl: "visits ks (syncMap s) \<Longrightarrow> fst (Flush ks s) = Inr ()"
    using i by (simp add: store_inv_Flush)
  show ?thesis
    using c u ops fl by (simp add: Len_def)
qed

text \<open>C1 after two inserts and a remove: one key is left and \<open>Len()\<close> is 1.\<close>

theorem C1_witness:
  "reach (snd (Remove (DStr ''a'') (snd (Insert ''b'' (DInt 2) (snd (Insert ''a'' (DInt 1) (New True))))))) \<and>
   nkeys (snd (Remove (DStr ''a'') (snd (Insert ''b'' (DInt 2) (snd (Insert ''a'' (DInt 1) (New True))))))) = 1 \<and>
   unat (Len (snd (Remove (DStr ''a'') (snd (Insert ''b'' (DInt 2) (snd (Insert ''a'' (DInt 1) (New True)))))))) = 1"
proof -
  let ?s = "snd (Remove (DStr ''a'') (snd (Insert ''b'' (DInt 2) (snd (Insert ''a'' (DInt 1) (New True))))))"
  have r: "reach ?s"
    by (intro reach.intros)
  have n: "nkeys ?s = 1"
    by (simp add: nkeys_def Insert_absent Remove_present_string New_def defaultCallback_def
        fcard_finsert_if fcard_fempty)
  show ?thesis
    using r n C1_Len_is_number_of_keys [OF r] by simp
qed

section \<open>Keys that are strings, and keys that are not\<close>

lemma insert_internal_syncMap:
  "syncMap (snd (insert_internal kd v opts s))
     = (if unique opts \<and> fmlookup (syncMap s) kd \<noteq> None then syncMap s
        else fmupd kd v (syncMap s))"
  by (auto simp add: insert_internal_def invoke_def Let_def Get_def
      split: option.splits sum.splits)

lemma string_keys_Insert:
  "string_keys (syncMap s) \<Longrightarrow> string_keys (syncMap (snd (Insert k v s)))"
  by (simp add: Insert_def insert_internal_syncMap string_keys_upd)

lemma string_keys_InsertUnique:
  "string_keys (syncMap s) \<Longrightarrow> string_keys (syncMap (snd (InsertUnique k v s)))"
  by (simp add: InsertUnique_def insert_internal_syncMap string_keys_upd)

lemma string_keys_lookup:
  "string_keys m \<Longrightarrow> fmlookup m k = Some v \<Longrightarrow> \<exists>x. k = DStr x"
  by (auto simp: string_keys_def fmlookup_dom'_iff intro: assert_string_is_string)

lemma Remove_string_keys_no_assertion:
  assumes "string_keys (syncMap s)"
  shows "fst (Remove kd s) \<noteq> Inl (TypeAssertion p)"
proof (cases "fmlookup (syncMap s) kd")
  case None
  then show ?thesis by (simp add: Remove_absent)
next
  case (Some r)
  then obtain x where "kd = DStr x"
    using assms string_keys_lookup by blast
  with Some show ?thesis
    by (cases "onRemove s") (simp_all add: Remove_present_string Remove_present_nil)
qed

lemma Flush_loop_no_assertion:
  "string_keys (syncMap s) \<Longrightarrow> fst (Range ks syncMap Flush_visit s) \<noteq> Inl (TypeAssertion p)"
proof (induction ks arbitrary: s)
  case Nil
  then show ?case by simp
next
  case (Cons k ks)
  show ?case
  proof (cases "fmlookup (syncMap s) k")
    case None
    then show ?thesis using Cons by simp
  next
    case (Some v)
    then obtain x where k: "k = DStr x"
      using Cons.prems string_keys_lookup by blast
    show ?thesis
    proof (cases "onRemove s")
      case True
      let ?s1 = "s\<lparr>count := count s - 1, syncMap := fmdrop (DStr x) (syncMap s),
                     events := events s @ [OnRemove x v]\<rparr>"
      have "string_keys (syncMap ?s1)"
        using Cons.prems by (simp add: string_keys_drop)
      then have "fst (Range ks syncMap Flush_visit ?s1) \<noteq> Inl (TypeAssertion p)"
        by (rule Cons.IH)
      then show ?thesis
        using Some True by (simp add: k Flush_visit_string)
    next
      case False
      then show ?thesis
        using Some by (simp add: k Flush_visit_def Remove_present_nil)
    qed
  qed
qed

lemma Flush_no_assertion:
  assumes "string_keys (syncMap s)"
  shows "fst (Flush ks s) \<noteq> Inl (TypeAssertion p)"
proof -
  obtain r s' where r: "Range ks syncMap Flush_visit s = (r, s')"
    by (cases "Range ks syncMap Flush_visit s")
  with Flush_loop_no_assertion [OF assms, of ks p] have "r \<noteq> Inl (TypeAssertion p)"
    by simp
  with r show ?thesis
    by (cases r) (simp_all add: Flush_def)
qed

lemma GetKeyMap_loop_ok:
  "string_keys (syncMap s) \<Longrightarrow>
   \<exists>acc'. Range ks (\<lambda>st. syncMap (fst st)) GetKeyMap_visit (s, acc) = (Inr (), (s, acc'))"
proof (induction ks arbitrary: acc)
  case Nil
  then show ?case by simp
next
  case (Cons k ks)
  show ?case
  proof (cases "fmlookup (syncMap s) k")
    case None
    then show ?thesis using Cons by simp
  next
    case (Some v)
    then obtain x where k: "k = DStr x"
      using Cons.prems string_keys_lookup by blast
    from Cons.IH [OF Cons.prems, of "fmupd x True acc"] Some show ?thesis
      by (simp add: k GetKeyMap_visit_def)
  qed
qed

lemma GetKeyMap_string_keys:
  assumes "string_keys (syncMap s)"
  shows "\<not> isl (GetKeyMap ks s)"
proof -
  from GetKeyMap_loop_ok [OF assms, of ks fmempty] obtain acc'
    where "Range ks (\<lambda>st. syncMap (fst st)) GetKeyMap_visit (s, fmempty) = (Inr (), (s, acc'))"
    by blast
  then show ?thesis by (simp add: GetKeyMap_def)
qed

lemma assert_string_not_string: "\<not> is_string kd \<Longrightarrow> assert_string kd = Inl (TypeAssertion kd)"
  by (cases kd) simp_all

lemma GetKeyMap_loop_panic:
  "kd \<in> set ks \<Longrightarrow> fmlookup (syncMap s) kd = Some v \<Longrightarrow> \<not> is_string kd \<Longrightarrow>
   \<forall>k \<in> fmdom' (syncMap s). k \<noteq> kd \<longrightarrow> is_string k \<Longrightarrow>
   fst (Range ks (\<lambda>st. syncMap (fst st)) GetKeyMap_visit (s, acc)) = Inl (TypeAssertion kd)"
proof (induction ks arbitrary: acc)
  case Nil
  then show ?case by simp
next
  case (Cons k ks)
  show ?case
  proof (cases "k = kd")
    case True
    then show ?thesis
      using Cons.prems by (simp add: GetKeyMap_visit_def assert_string_not_string)
  next
    case False
    then have in_ks: "kd \<in> set ks" using Cons.prems by simp
    show ?thesis
    proof (cases "fmlookup (syncMap s) k")
      case None
      then show ?thesis using Cons.IH [OF in_ks Cons.prems(2,3,4)] by simp
    next
      case (Some w)
      then have "is_string k"
        using Cons.prems(4) False by (auto simp: fmlookup_dom'_iff)
      then obtain x where k: "k = DStr x"
        using assert_string_is_string by blast
      from Cons.IH [OF in_ks Cons.prems(2,3,4), of "fmupd x True acc"] Some show ?thesis
        by (simp add: k GetKeyMap_visit_def)
    qed
  qed
qed

lemma Flush_loop_panic:
  "kd \<in> set ks \<Longrightarrow> fmlookup (syncMap s) kd = Some v \<Longrightarrow> \<not> is_string kd \<Longrightarrow>
   \<forall>k \<in> fmdom' (syncMap s). k \<noteq> kd \<longrightarrow> is_string k \<Longrightarrow>
   isl (fst (Range ks syncMap Flush_visit s)) \<and>
   (onRemove s \<longrightarrow> fst (Range ks syncMap Flush_visit s) = Inl (TypeAssertion kd))"
proof (induction ks arbitrary: s)
  case Nil
  then show ?case by simp
next
  case (Cons k ks)
  show ?case
  proof (cases "k = kd")
    case True
    then show ?thesis
      using Cons.prems by (simp add: Flush_visit_def assert_string_not_string)
  next
    case False
    then have in_ks: "kd \<in> set ks" using Cons.prems by simp
    show ?thesis
    proof (cases "fmlookup (syncMap s) k")
      case None
      then show ?thesis using Cons.IH [OF in_ks Cons.prems(2,3,4)] by simp
    next
      case (Some w)
      then have "is_string k"
        using Cons.prems(4) False by (auto simp: fmlookup_dom'_iff)
      then obtain x where k: "k = DStr x"
        using assert_string_is_string by blast
      show ?thesis
      proof (cases "onRemove s")
        case True
        let ?s1 = "s\<lparr>count := count s - 1, syncMap := fmdrop (DStr x) (syncMap s),
                       events := events s @ [OnRemove x w]\<rparr>"
        have l: "fmlookup (syncMap ?s1) kd = Some v"
          using Cons.prems(2) False by (simp add: k)
        have o: "\<forall>k \<in> fmdom' (syncMap ?s1). k \<noteq> kd \<longrightarrow> is_string k"
          using Cons.prems(4) by simp
        from Cons.IH [OF in_ks l Cons.prems(3) o] Some True show ?thesis
          by (simp add: k Flush_visit_string)
      next
        case False
        then show ?thesis
          using Some by (simp add: k Flush_visit_def Remove_present_nil)
      qed
    qed
  qed
qed

section \<open>The jobs of a batch\<close>

lemma do_job_new_key:
  "method_j j \<noteq> oppRemove \<Longrightarrow> fmlookup (syncMap s) (key j) = None \<Longrightarrow>
   do_job j (b, s)
     = (Inr (), b\<lparr>created := fmupd (key j) (value_j j) (created b)\<rparr>,
        s\<lparr>syncMap := fmupd (key j) (value_j j) (syncMap s), count := count s + 1\<rparr>)"
  by (cases "method_j j")
     (simp_all add: do_job_def insert_unique_absent_quiet insert_plain_quiet)

lemma do_job_overwrite:
  "method_j j = oppInsert \<Longrightarrow> fmlookup (syncMap s) (key j) = Some r \<Longrightarrow>
   do_job j (b, s)
     = (Inr (), b\<lparr>updated := fmupd (key j) (value_j j) (updated b)\<rparr>,
        s\<lparr>syncMap := fmupd (key j) (value_j j) (syncMap s)\<rparr>)"
  by (simp add: do_job_def insert_plain_quiet)

lemma do_job_unique_present:
  "method_j j = oppInsertUnique \<Longrightarrow> fmlookup (syncMap s) (key j) = Some r \<Longrightarrow>
   do_job j (b, s) = (Inr (), b, s)"
  by (simp add: do_job_def insert_unique_present)

lemma do_job_remove_present:
  "method_j j = oppRemove \<Longrightarrow> fmlookup (syncMap s) (key j) = Some r \<Longrightarrow>
   do_job j (b, s)
     = (Inr (), b\<lparr>deleted := fmupd (key j) r (deleted b)\<rparr>,
        s\<lparr>count := count s - 1, syncMap := fmdrop (key j) (syncMap s)\<rparr>)"
  by (simp add: do_job_def remove_present_quiet)

lemma do_job_remove_absent:
  "method_j j = oppRemove \<Longrightarrow> fmlookup (syncMap s) (key j) = None \<Longrightarrow>
   do_job j (b, s) = (Inr (), b, s)"
  by (simp add: do_job_def remove_absent)

lemmas do_job_cases =
  do_job_new_key do_job_overwrite do_job_unique_present do_job_remove_present do_job_remove_absent

lemma do_job_no_panic: "fst (do_job j (b, s)) = Inr ()"
  by (cases "method_j j"; cases "fmlookup (syncMap s) (key j)") (simp_all add: do_job_cases)

lemma do_job_created:
  "created (fst (snd (do_job j (b, s))))
     = (if method_j j \<noteq> oppRemove \<and> fmlookup (syncMap s) (key j) = None
        then fmupd (key j) (value_j j) (created b) else created b)"
  by (cases "method_j j"; cases "fmlookup (syncMap s) (key j)") (simp_all add: do_job_cases)

lemma do_job_updated:
  "updated (fst (snd (do_job j (b, s))))
     = (if method_j j = oppInsert \<and> fmlookup (syncMap s) (key j) \<noteq> None
        then fmupd (key j) (value_j j) (updated b) else updated b)"
  by (cases "method_j j"; cases "fmlookup (syncMap s) (key j)") (simp_all add: do_job_cases)

lemma do_job_deleted:
  "deleted (fst (snd (do_job j (b, s))))
     = (case fmlookup (syncMap s) (key j) of
          Some r \<Rightarrow> if method_j j = oppRemove then fmupd (key j) r (deleted b) else deleted b
        | None \<Rightarrow> deleted b)"
  by (cases "method_j j"; cases "fmlookup (syncMap s) (key j)") (simp_all add: do_job_cases)

lemma do_job_events: "events (snd (snd (do_job j (b, s)))) = events s"
  by (cases "method_j j"; cases "fmlookup (syncMap s) (key j)") (simp_all add: do_job_cases)

lemma run_jobs_no_panic: "fst (run_jobs js bs) = Inr ()"
proof (induction js arbitrary: bs)
  case Nil
  show ?case by simp
next
  case (Cons j js)
  obtain b s where bs: "bs = (b, s)" by (cases bs)
  obtain b1 s1 where d: "do_job j (b, s) = (Inr (), b1, s1)"
    using do_job_no_panic [of j b s] by (cases "do_job j (b, s)") auto
  show ?case using Cons.IH [of "(b1, s1)"] by (simp add: bs d)
qed

lemma run_jobs_events: "events (snd (snd (run_jobs js (b, s)))) = events s"
proof (induction js arbitrary: b s)
  case Nil
  show ?case by simp
next
  case (Cons j js)
  obtain b1 s1 where d: "do_job j (b, s) = (Inr (), b1, s1)"
    using do_job_no_panic [of j b s] by (cases "do_job j (b, s)") auto
  have "events s1 = events s" using do_job_events [of j b s] by (simp add: d)
  then show ?case using Cons.IH [of b1 s1] by (simp add: d)
qed

lemma run_jobs_ineffective:
  "\<forall>j \<in> set js. ineffective j s \<Longrightarrow> run_jobs js (b, s) = (Inr (), b, s)"
proof (induction js)
  case Nil
  show ?case by simp
next
  case (Cons j js)
  then have "ineffective j s" by simp
  then have "do_job j (b, s) = (Inr (), b, s)"
    by (auto simp: ineffective_def do_job_unique_present do_job_remove_absent)
  then show ?case using Cons by simp
qed

lemma fire_batch_empty: "fire_batch f tag fmempty s = s"
  by (simp add: fire_batch_def KV_Len_def fcard_fempty)

lemma Execute_run_jobs:
  "run_jobs sched (b, s) = (Inr (), b', s') \<Longrightarrow>
   Execute sched b s
     = (Inr (), b',
        fire_batch (onBatchRemove s') OnBatchRemove (deleted b')
          (fire_batch (onBatchUpdate s') OnBatchUpdate (updated b')
            (fire_batch (onBatchInsert s') OnBatchInsert (created b') s')))"
  by (simp add: Execute_def Let_def fire_batch_def)

lemma Execute_batch: "fst (snd (Execute sched b s)) = fst (snd (run_jobs sched (b, s)))"
proof -
  obtain b' s' where r: "run_jobs sched (b, s) = (Inr (), b', s')"
    using run_jobs_no_panic [of sched "(b, s)"] by (cases "run_jobs sched (b, s)") auto
  show ?thesis by (simp add: Execute_run_jobs [OF r] r)
qed

lemma run_jobs_disjoint:
  "distinct (insert_keys js) \<Longrightarrow>
   fmdom' (created b) \<inter> fmdom' (updated b) = {} \<Longrightarrow>
   (fmdom' (created b) \<union> fmdom' (updated b)) \<inter> set (insert_keys js) = {} \<Longrightarrow>
   fmdom' (created (fst (snd (run_jobs js (b, s))))) \<inter>
   fmdom' (updated (fst (snd (run_jobs js (b, s))))) = {}"
proof (induction js arbitrary: b s)
  case Nil
  then show ?case by simp
next
  case (Cons j js)
  obtain b1 s1 where d: "do_job j (b, s) = (Inr (), b1, s1)"
    using do_job_no_panic [of j b s] by (cases "do_job j (b, s)") auto
  have c1: "created b1 = (if method_j j \<noteq> oppRemove \<and> fmlookup (syncMap s) (key j) = None
        then fmupd (key j) (value_j j) (created b) else created b)"
    using do_job_created [of j b s] by (simp add: d)
  have u1: "updated b1 = (if method_j j = oppInsert \<and> fmlookup (syncMap s) (key j) \<noteq> None
        then fmupd (key j) (value_j j) (updated b) else updated b)"
    using do_job_updated [of j b s] by (simp add: d)
  have dist: "distinct (insert_keys js)"
    using Cons.prems(1) by (simp add: insert_keys_def split: if_splits)
  have disj: "fmdom' (created b1) \<inter> fmdom' (updated b1) = {}"
    using Cons.prems(2,3) by (auto simp: c1 u1 insert_keys_def split: if_splits)
  have fresh: "(fmdom' (created b1) \<union> fmdom' (updated b1)) \<inter> set (insert_keys js) = {}"
    using Cons.prems(1,3) by (auto simp: c1 u1 insert_keys_def split: if_splits)
  show ?case
    using Cons.IH [OF dist disj fresh, of s1] by (simp add: d)
qed

lemma schedule_insert_keys:
  "schedule sched b \<Longrightarrow> distinct (insert_keys sched) = distinct (insert_keys (jobs b))"
proof -
  assume "schedule sched b"
  then have "mset (insert_keys sched) = mset (insert_keys (jobs b))"
    by (simp add: schedule_def insert_keys_def)
  then show ?thesis by (rule mset_eq_imp_distinct_iff)
qed

lemma perm3:
  assumes "mset xs = mset [a, b, c]"
  shows "xs \<in> {[a, b, c], [a, c, b], [b, a, c], [b, c, a], [c, a, b], [c, b, a]}"
proof -
  have "length xs = length [a, b, c]" using assms by (rule mset_eq_length)
  then have "length xs = 3" by simp
  then obtain x y z where xs: "xs = [x, y, z]"
    by (auto simp: numeral_3_eq_3 length_Suc_conv)
  show ?thesis
    using assms unfolding xs
    by (auto simp: add_eq_conv_diff)
qed

section \<open>Insert-unique and remove\<close>

text \<open>
  C5. InsertUnique of a key that is present is a no-op: it returns the value the key has
  with existedBefore true and leaves the store as it was (the mapping, the counter and
  the trace of callbacks, so no callback is called); run as a job of a batch, it leaves
  the created and the updated set, and the store, as they were.
\<close>

theorem C5_InsertUnique_present_noop:
  assumes "fmlookup (syncMap s) kd = Some r"
  shows "(\<forall>k. kd = DStr k \<longrightarrow> InsertUnique k v s = (Inr (r, True), s)) \<and>
         do_job \<lparr>method_j = oppInsertUnique, key = kd, value_j = v\<rparr> (b, s) = (Inr (), b, s)"
  using assms by (auto simp add: InsertUnique_present do_job_unique_present)

text \<open>C5 on the store that holds \<open>"k"\<close> with the value 1.\<close>

theorem C5_witness:
  "fmlookup (syncMap (snd (Insert ''k'' (DInt 1) (New True)))) (DStr ''k'') = Some (DInt 1) \<and>
   InsertUnique ''k'' (DInt 2) (snd (Insert ''k'' (DInt 1) (New True)))
     = (Inr (DInt 1, True), snd (Insert ''k'' (DInt 1) (New True))) \<and>
   do_job \<lparr>method_j = oppInsertUnique, key = DStr ''k'', value_j = DInt 2\<rparr>
       (Batch (New True), snd (Insert ''k'' (DInt 1) (New True)))
     = (Inr (), Batch (New True), snd (Insert ''k'' (DInt 1) (New True)))"
proof -
  have h: "fmlookup (syncMap (snd (Insert ''k'' (DInt 1) (New True)))) (DStr ''k'') = Some (DInt 1)"
    by (simp add: Insert_def insert_internal_syncMap)
  show ?thesis
    using h C5_InsertUnique_present_noop [OF h, of "DInt 2" "Batch (New True)"] by simp
qed

text \<open>
  C6, amended. For a string key that is present, and a remove callback that is not nil,
  \<open>Remove(key)\<close> deletes the key, decrements the counter, calls the remove callback once
  with the key and the value that was removed, and returns true. For a key of any type
  that is absent it returns false and leaves the mapping, the counter and the trace as
  they were.
\<close>

theorem C6_Remove_string_key:
  "(fmlookup (syncMap s) (DStr k) = Some r \<and> onRemove s \<longrightarrow>
      Remove (DStr k) s
        = (Inr True, s\<lparr>count := count s - 1, syncMap := fmdrop (DStr k) (syncMap s),
                       events := events s @ [OnRemove k r]\<rparr>)) \<and>
   (fmlookup (syncMap s) kd = None \<longrightarrow> Remove kd s = (Inr False, s))"
proof (intro conjI impI)
  assume "fmlookup (syncMap s) (DStr k) = Some r \<and> onRemove s"
  then show "Remove (DStr k) s
        = (Inr True, s\<lparr>count := count s - 1, syncMap := fmdrop (DStr k) (syncMap s),
                       events := events s @ [OnRemove k r]\<rparr>)"
    by (simp add: Remove_present_string)
next
  assume "fmlookup (syncMap s) kd = None"
  then show "Remove kd s = (Inr False, s)"
    by (rule Remove_absent)
qed

text \<open>C6 on the store that holds \<open>"k"\<close>, and for the absent key 7 on the empty store.\<close>

theorem C6_witness:
  "fmlookup (syncMap (snd (Insert ''k'' (DInt 1) (New True)))) (DStr ''k'') = Some (DInt 1) \<and>
   onRemove (snd (Insert ''k'' (DInt 1) (New True))) \<and>
   fst (Remove (DStr ''k'') (snd (Insert ''k'' (DInt 1) (New True)))) = Inr True \<and>
   events (snd (Remove (DStr ''k'') (snd (Insert ''k'' (DInt 1) (New True)))))
     = [OnInsert ''k'' (DInt 1), OnRemove ''k'' (DInt 1)] \<and>
   fmlookup (syncMap (New True)) (DInt 7) = None \<and>
   Remove (DInt 7) (New True) = (Inr False, New True)"
proof -
  let ?s = "snd (Insert ''k'' (DInt 1) (New True))"
  have s: "?s = (New True)\<lparr>syncMap := fmupd (DStr ''k'') (DInt 1) fmempty, count := 1,
                            events := [OnInsert ''k'' (DInt 1)]\<rparr>"
    by (simp add: Insert_absent New_def defaultCallback_def counter_New_def)
  have h1: "fmlookup (syncMap ?s) (DStr ''k'') = Some (DInt 1)"
    by (simp add: s)
  have h2: "onRemove ?s"
    by (simp add: s) (simp add: New_def defaultCallback_def)
  have h3: "fmlookup (syncMap (New True)) (DInt 7) = None"
    by (simp add: New_def)
  show ?thesis
    using h1 h2 h3 C6_Remove_string_key [of ?s "''k''" "DInt 1" "DInt 7"]
      C6_Remove_string_key [of "New True" "''k''" "DInt 1" "DInt 7"]
    by (simp add: s)
qed

text \<open>
  C6 as stated fails for a key that is not a string. A batch stores the key 42;
  \<open>Remove(42)\<close> then finds the key, and panics at \<^verbatim>\<open>key.(string)\<close>: it does not return true
  and the remove callback is not called.
\<close>

theorem C6_counterexample:
  "Get (DInt 42)
     (snd (snd (Execute (jobs (batch_Insert (DInt 42) (DStr ''v'') (Batch (New True))))
                  (batch_Insert (DInt 42) (DStr ''v'') (Batch (New True))) (New True))))
     = (DStr ''v'', True) \<and>
   fst (Remove (DInt 42)
     (snd (snd (Execute (jobs (batch_Insert (DInt 42) (DStr ''v'') (Batch (New True))))
                  (batch_Insert (DInt 42) (DStr ''v'') (Batch (New True))) (New True)))))
     = Inl (TypeAssertion (DInt 42)) \<and>
   events (snd (Remove (DInt 42)
     (snd (snd (Execute (jobs (batch_Insert (DInt 42) (DStr ''v'') (Batch (New True))))
                  (batch_Insert (DInt 42) (DStr ''v'') (Batch (New True))) (New True))))))
     = [OnBatchInsert (fmupd (DInt 42) (DStr ''v'') fmempty)]"
  by (simp add: Batch_def batch_Insert_def Execute_def do_job_def insert_plain_quiet
      fire_batch_def KV_Len_def fcard_finsert_if fcard_fempty New_def defaultBatchCallback_def
      defaultCallback_def counter_New_def Get_def Remove_def remove_internal_def Dec_def
      invoke_def Let_def)

section \<open>Flush\<close>

text \<open>
  C7, amended. On a store whose keys are all strings, with a remove callback that is not
  nil, \<open>Flush()\<close> removes every key, one at a time in the order of the walk: for each key
  present the remove callback is called once with the key and its value and the counter
  is decremented once, as Remove does; at the end one broadcast is made if the store is
  lockable, and none if it is not. Afterwards the mapping is empty, \<open>GetKeyMap()\<close> is empty,
  and \<open>Len()\<close> is 0 when the counter was the number of keys.
\<close>

theorem C7_Flush_string_keys:
  assumes "visits ks (syncMap s)" and "string_keys (syncMap s)" and "onRemove s"
  shows "Flush ks s
           = (Inr (), s\<lparr>count := count s - of_nat (nkeys s), syncMap := fmempty,
                        events := events s @ concat (map (remove_event (syncMap s)) ks)
                                  @ (if lockable s then [Broadcast] else [])\<rparr>) \<and>
         (count s = of_nat (nkeys s) \<longrightarrow> Len (snd (Flush ks s)) = 0) \<and>
         (\<forall>ks'. GetKeyMap ks' (snd (Flush ks s)) = Inr fmempty)"
proof -
  note f = Flush_strings [OF assms]
  show ?thesis
    by (simp add: f Len_def GetKeyMap_empty)
qed

text \<open>C7 on the lockable store that holds \<open>"a"\<close> and \<open>"b"\<close>.\<close>

theorem C7_witness:
  "visits [DStr ''b'', DStr ''a''] (syncMap (snd (Insert ''b'' (DInt 2) (snd (Insert ''a'' (DInt 1) (New True)))))) \<and>
   string_keys (syncMap (snd (Insert ''b'' (DInt 2) (snd (Insert ''a'' (DInt 1) (New True)))))) \<and>
   onRemove (snd (Insert ''b'' (DInt 2) (snd (Insert ''a'' (DInt 1) (New True))))) \<and>
   events (snd (Flush [DStr ''b'', DStr ''a''] (snd (Insert ''b'' (DInt 2) (snd (Insert ''a'' (DInt 1) (New True)))))))
     = [OnInsert ''a'' (DInt 1), OnInsert ''b'' (DInt 2),
        OnRemove ''b'' (DInt 2), OnRemove ''a'' (DInt 1), Broadcast] \<and>
   Len (snd (Flush [DStr ''b'', DStr ''a''] (snd (Insert ''b'' (DInt 2) (snd (Insert ''a'' (DInt 1) (New True))))))) = 0 \<and>
   GetKeyMap [] (snd (Flush [DStr ''b'', DStr ''a''] (snd (Insert ''b'' (DInt 2) (snd (Insert ''a'' (DInt 1) (New True))))))) = Inr fmempty"
proof -
  let ?s = "snd (Insert ''b'' (DInt 2) (snd (Insert ''a'' (DInt 1) (New True))))"
  have s: "?s = (New True)\<lparr>syncMap := fmupd (DStr ''b'') (DInt 2) (fmupd (DStr ''a'') (DInt 1) fmempty),
                            count := 2,
                            events := [OnInsert ''a'' (DInt 1), OnInsert ''b'' (DInt 2)]\<rparr>"
    by (simp add: Insert_absent New_def defaultCallback_def counter_New_def)
  have h1: "visits [DStr ''b'', DStr ''a''] (syncMap ?s)"
    by (simp add: s visits_def)
  have h2: "string_keys (syncMap ?s)"
    by (simp add: s string_keys_def)
  have h3: "onRemove ?s"
    by (simp add: s) (simp add: New_def defaultCallback_def)
  have n: "nkeys ?s = 2"
    by (simp add: s nkeys_def fcard_finsert_if fcard_fempty)
  have l: "lockable ?s"
    by (simp add: s lockable_def) (simp add: New_def)
  have c: "count ?s = 2"
    by (simp add: s)
  have e: "events ?s = [OnInsert ''a'' (DInt 1), OnInsert ''b'' (DInt 2)]"
    by (simp add: s)
  have m: "syncMap ?s = fmupd (DStr ''b'') (DInt 2) (fmupd (DStr ''a'') (DInt 1) fmempty)"
    by (simp add: s)
  show ?thesis
    using h1 h2 h3 C7_Flush_string_keys [OF h1 h2 h3]
    by (simp add: n l c e m Len_def GetKeyMap_def)
qed

text \<open>
  C7 as stated fails in two ways. On a store in which a batch has stored the key 42,
  \<open>Flush()\<close> panics at \<^verbatim>\<open>k.(string)\<close> and the key stays, so \<open>Len()\<close> is 1. On a store that is
  not lockable, \<open>Flush()\<close> ends without any change notification.
\<close>

theorem C7_counterexample:
  "fst (Flush [DInt 42]
     (snd (snd (Execute (jobs (batch_Insert (DInt 42) (DStr ''v'') (Batch (New True))))
                  (batch_Insert (DInt 42) (DStr ''v'') (Batch (New True))) (New True)))))
     = Inl (TypeAssertion (DInt 42)) \<and>
   Len (snd (Flush [DInt 42]
     (snd (snd (Execute (jobs (batch_Insert (DInt 42) (DStr ''v'') (Batch (New True))))
                  (batch_Insert (DInt 42) (DStr ''v'') (Batch (New True))) (New True)))))) = 1 \<and>
   fst (Flush [DStr ''k''] (snd (Insert ''k'' (DInt 1) (New False)))) = Inr () \<and>
   events (snd (Flush [DStr ''k''] (snd (Insert ''k'' (DInt 1) (New False)))))
     = [OnInsert ''k'' (DInt 1), OnRemove ''k'' (DInt 1)]"
  by (simp add: Batch_def batch_Insert_def Execute_def do_job_def insert_plain_quiet
      fire_batch_def KV_Len_def fcard_finsert_if fcard_fempty New_def defaultBatchCallback_def
      defaultCallback_def counter_New_def Flush_def Flush_visit_def Len_def
      Insert_def insert_internal_def Inc_def Get_def Remove_def remove_internal_def Dec_def
      invoke_def lockable_def Let_def)

section \<open>A batch that stores a key that is not a string\<close>

lemma fire_batch_fields:
  "syncMap (fire_batch f tag m s) = syncMap s"
  "onRemove (fire_batch f tag m s) = onRemove s"
  "count (fire_batch f tag m s) = count s"
  "onBatchInsert (fire_batch f tag m s) = onBatchInsert s"
  "onBatchUpdate (fire_batch f tag m s) = onBatchUpdate s"
  "onBatchRemove (fire_batch f tag m s) = onBatchRemove s"
  by (simp_all add: fire_batch_def)

lemma Flush_fst: "fst (Flush ks s) = fst (Range ks syncMap Flush_visit s)"
proof -
  obtain r s' where r: "Range ks syncMap Flush_visit s = (r, s')"
    by (cases "Range ks syncMap Flush_visit s")
  show ?thesis by (cases r) (simp_all add: Flush_def r)
qed

lemma GetKeyMap_panic:
  "fst (Range ks (\<lambda>st. syncMap (fst st)) GetKeyMap_visit (s, fmempty)) = Inl p \<Longrightarrow>
   GetKeyMap ks s = Inl p"
  by (cases "Range ks (\<lambda>st. syncMap (fst st)) GetKeyMap_visit (s, fmempty)")
     (simp add: GetKeyMap_def)

lemma Execute_single_new_key:
  assumes "method_j j \<noteq> oppRemove" and "fmlookup (syncMap s) (key j) = None"
  shows "syncMap (snd (snd (Execute [j] b s))) = fmupd (key j) (value_j j) (syncMap s) \<and>
         onRemove (snd (snd (Execute [j] b s))) = onRemove s"
proof -
  have "run_jobs [j] (b, s)
     = (Inr (), b\<lparr>created := fmupd (key j) (value_j j) (created b)\<rparr>,
        s\<lparr>syncMap := fmupd (key j) (value_j j) (syncMap s), count := count s + 1\<rparr>)"
    using assms by (simp add: do_job_new_key)
  from Execute_run_jobs [OF this] show ?thesis
    by (simp add: fire_batch_fields)
qed

lemma batch_panics_later:
  assumes sk: "string_keys (syncMap s)" and ns: "\<not> is_string kn"
    and j: "method_j j \<noteq> oppRemove" "key j = kn"
    and vis: "visits ks (syncMap (snd (snd (Execute [j] b s))))"
  shows "GetKeyMap ks (snd (snd (Execute [j] b s))) = Inl (TypeAssertion kn) \<and>
         isl (fst (Flush ks (snd (snd (Execute [j] b s))))) \<and>
         (onRemove s \<longrightarrow> fst (Flush ks (snd (snd (Execute [j] b s)))) = Inl (TypeAssertion kn))"
proof -
  let ?s' = "snd (snd (Execute [j] b s))"
  have absent: "fmlookup (syncMap s) (key j) = None"
  proof (cases "fmlookup (syncMap s) (key j)")
    case None
    then show ?thesis .
  next
    case (Some w)
    then have "\<exists>x. key j = DStr x" using sk by (rule string_keys_lookup [rotated])
    then show ?thesis using ns j(2) by auto
  qed
  have m: "syncMap ?s' = fmupd kn (value_j j) (syncMap s)" and o: "onRemove ?s' = onRemove s"
    using Execute_single_new_key [OF j(1) absent, of b] by (simp_all add: j(2))
  have l: "fmlookup (syncMap ?s') kn = Some (value_j j)"
    by (simp add: m)
  have others: "\<forall>k \<in> fmdom' (syncMap ?s'). k \<noteq> kn \<longrightarrow> is_string k"
    using sk by (simp add: m string_keys_def)
  have in_ks: "kn \<in> set ks"
    using vis by (simp add: visits_def m)
  have g: "GetKeyMap ks ?s' = Inl (TypeAssertion kn)"
    by (rule GetKeyMap_panic) (rule GetKeyMap_loop_panic [OF in_ks l ns others])
  from Flush_loop_panic [OF in_ks l ns others] g show ?thesis
    by (simp add: Flush_fst o)
qed

lemma schedule_single:
  "schedule sched (batch_Insert k v (Batch s)) \<Longrightarrow> sched = [\<lparr>method_j = oppInsert, key = k, value_j = v\<rparr>]"
  "schedule sched (batch_InsertUnique k v (Batch s)) \<Longrightarrow> sched = [\<lparr>method_j = oppInsertUnique, key = k, value_j = v\<rparr>]"
  by (simp_all add: schedule_def batch_Insert_def batch_InsertUnique_def Batch_def)

text \<open>
  C10. \<open>Store.Insert\<close> and \<open>Store.InsertUnique\<close> take string keys, so they keep every key of
  the store a string. While every key of the store is a string, no type assertion
  \<^verbatim>\<open>key.(string)\<close> fails: \<open>GetKeyMap\<close> returns, and neither \<open>Flush\<close> nor the remove-callback
  path of \<open>Remove\<close> panics with a failed assertion. The \<open>Insert\<close> and \<open>InsertUnique\<close> of a
  batch take a key of any type: after a batch has stored a key \<open>kn\<close> that is not a string,
  \<open>GetKeyMap\<close> panics at the assertion on \<open>kn\<close>, and \<open>Flush\<close> panics too, at the assertion on
  \<open>kn\<close> when the remove callback is not nil.
\<close>

theorem C10_string_keys:
  assumes "string_keys (syncMap s)"
  shows "string_keys (syncMap (snd (Insert k v s))) \<and>
         string_keys (syncMap (snd (InsertUnique k v s))) \<and>
         \<not> isl (GetKeyMap ks s) \<and>
         fst (Flush ks s) \<noteq> Inl (TypeAssertion p) \<and>
         fst (Remove kd s) \<noteq> Inl (TypeAssertion p) \<and>
         (\<not> is_string kn \<and>
          (B = batch_Insert kn v (Batch s) \<or> B = batch_InsertUnique kn v (Batch s)) \<and>
          schedule sched B \<and> visits ks' (syncMap (snd (snd (Execute sched B s)))) \<longrightarrow>
            GetKeyMap ks' (snd (snd (Execute sched B s))) = Inl (TypeAssertion kn) \<and>
            isl (fst (Flush ks' (snd (snd (Execute sched B s))))) \<and>
            (onRemove s \<longrightarrow>
               fst (Flush ks' (snd (snd (Execute sched B s)))) = Inl (TypeAssertion kn)))"
proof -
  have later: "GetKeyMap ks' (snd (snd (Execute sched B s))) = Inl (TypeAssertion kn) \<and>
            isl (fst (Flush ks' (snd (snd (Execute sched B s))))) \<and>
            (onRemove s \<longrightarrow>
               fst (Flush ks' (snd (snd (Execute sched B s)))) = Inl (TypeAssertion kn))"
    if ns: "\<not> is_string kn"
      and B: "B = batch_Insert kn v (Batch s) \<or> B = batch_InsertUnique kn v (Batch s)"
      and sc: "schedule sched B"
      and vis: "visits ks' (syncMap (snd (snd (Execute sched B s))))"
  proof -
    from B sc obtain j where j: "sched = [j]" "method_j j \<noteq> oppRemove" "key j = kn"
      using schedule_single by fastforce
    show ?thesis
      using batch_panics_later [OF assms ns j(2,3), of ks' B] vis by (simp add: j(1))
  qed
  show ?thesis
    using assms later
    by (simp add: string_keys_Insert string_keys_InsertUnique GetKeyMap_string_keys
        Flush_no_assertion Remove_string_keys_no_assertion)
qed

text \<open>C10 on the empty store, with a batch that inserts the key 42.\<close>

theorem C10_witness:
  "string_keys (syncMap (New True)) \<and> \<not> is_string (DInt 42) \<and>
   schedule [\<lparr>method_j = oppInsert, key = DInt 42, value_j = DStr ''v''\<rparr>]
     (batch_Insert (DInt 42) (DStr ''v'') (Batch (New True))) \<and>
   visits [DInt 42] (syncMap (snd (snd (Execute [\<lparr>method_j = oppInsert, key = DInt 42, value_j = DStr ''v''\<rparr>]
     (batch_Insert (DInt 42) (DStr ''v'') (Batch (New True))) (New True))))) \<and>
   \<not> isl (GetKeyMap [] (New True)) \<and>
   GetKeyMap [DInt 42] (snd (snd (Execute [\<lparr>method_j = oppInsert, key = DInt 42, value_j = DStr ''v''\<rparr>]
     (batch_Insert (DInt 42) (DStr ''v'') (Batch (New True))) (New True))))
     = Inl (TypeAssertion (DInt 42)) \<and>
   fst (Flush [DInt 42] (snd (snd (Execute [\<lparr>method_j = oppInsert, key = DInt 42, value_j = DStr ''v''\<rparr>]
     (batch_Insert (DInt 42) (DStr ''v'') (Batch (New True))) (New True)))))
     = Inl (TypeAssertion (DInt 42))"
proof -
  let ?j = "\<lparr>method_j = oppInsert, key = DInt 42, value_j = DStr ''v''\<rparr>"
  let ?B = "batch_Insert (DInt 42) (DStr ''v'') (Batch (New True))"
  have h1: "string_keys (syncMap (New True))"
    by (simp add: New_def string_keys_def)
  have h2: "\<not> is_string (DInt 42)"
    by simp
  have h3: "schedule [?j] ?B"
    by (simp add: schedule_def batch_Insert_def Batch_def)
  have m: "syncMap (snd (snd (Execute [?j] ?B (New True)))) = fmupd (DInt 42) (DStr ''v'') fmempty"
    using Execute_single_new_key [of ?j "New True" ?B] by (simp add: New_def)
  have h4: "visits [DInt 42] (syncMap (snd (snd (Execute [?j] ?B (New True)))))"
    by (simp add: m visits_def)
  have h5: "onRemove (New True)"
    by (simp add: New_def defaultCallback_def)
  show ?thesis
    using h1 h2 h3 h4 h5
      C10_string_keys [OF h1, of "''k''" "DStr ''v''" "[]" "DInt 42" "DInt 42" "DInt 42" ?B "[?j]" "[DInt 42]"]
    by simp
qed

section \<open>The result sets of a batch\<close>

text \<open>
  C8, amended. Each job puts its key in at most one of the created and the updated set,
  by the existence of the key that the job itself found: an insert or insert-unique job
  that found the key absent puts it in created, an insert job that found it present puts
  it in updated, and any other job changes neither set. When no two insert or
  insert-unique jobs of a batch have the same key, no key is in both sets after the batch
  has run from empty sets, whatever the order of the jobs.
\<close>

theorem C8_created_updated:
  "created (fst (snd (do_job j (b, s))))
     = (if method_j j \<noteq> oppRemove \<and> fmlookup (syncMap s) (key j) = None
        then fmupd (key j) (value_j j) (created b) else created b) \<and>
   updated (fst (snd (do_job j (b, s))))
     = (if method_j j = oppInsert \<and> fmlookup (syncMap s) (key j) \<noteq> None
        then fmupd (key j) (value_j j) (updated b) else updated b) \<and>
   (schedule sched b0 \<and> distinct (insert_keys (jobs b0)) \<and>
    created b0 = fmempty \<and> updated b0 = fmempty \<longrightarrow>
      fmdom' (created (fst (snd (Execute sched b0 s0)))) \<inter>
      fmdom' (updated (fst (snd (Execute sched b0 s0)))) = {})"
proof -
  have whole: "fmdom' (created (fst (snd (Execute sched b0 s0)))) \<inter>
      fmdom' (updated (fst (snd (Execute sched b0 s0)))) = {}"
    if sc: "schedule sched b0" and d: "distinct (insert_keys (jobs b0))"
      and e: "created b0 = fmempty" "updated b0 = fmempty"
  proof -
    have d': "distinct (insert_keys sched)"
      using schedule_insert_keys [OF sc] d by simp
    show ?thesis
      using run_jobs_disjoint [OF d', of b0 s0] by (simp add: e Execute_batch)
  qed
  show ?thesis
    using whole by (simp only: do_job_created do_job_updated) simp
qed

text \<open>C8 for the jobs InsertUnique("a",1), Insert("b",2) on a store that holds \<open>"b"\<close>.\<close>

theorem C8_witness:
  "schedule (jobs (batch_Insert (DStr ''b'') (DInt 2) (batch_InsertUnique (DStr ''a'') (DInt 1) (Batch (New True)))))
     (batch_Insert (DStr ''b'') (DInt 2) (batch_InsertUnique (DStr ''a'') (DInt 1) (Batch (New True)))) \<and>
   distinct (insert_keys (jobs (batch_Insert (DStr ''b'') (DInt 2) (batch_InsertUnique (DStr ''a'') (DInt 1) (Batch (New True)))))) \<and>
   created (batch_Insert (DStr ''b'') (DInt 2) (batch_InsertUnique (DStr ''a'') (DInt 1) (Batch (New True)))) = fmempty \<and>
   updated (batch_Insert (DStr ''b'') (DInt 2) (batch_InsertUnique (DStr ''a'') (DInt 1) (Batch (New True)))) = fmempty \<and>
   fmdom' (created (fst (snd (Execute
       (jobs (batch_Insert (DStr ''b'') (DInt 2) (batch_InsertUnique (DStr ''a'') (DInt 1) (Batch (New True)))))
       (batch_Insert (DStr ''b'') (DInt 2) (batch_InsertUnique (DStr ''a'') (DInt 1) (Batch (New True))))
       (snd (Insert ''b'' (DInt 0) (New True))))))) \<inter>
   fmdom' (updated (fst (snd (Execute
       (jobs (batch_Insert (DStr ''b'') (DInt 2) (batch_InsertUnique (DStr ''a'') (DInt 1) (Batch (New True)))))
       (batch_Insert (DStr ''b'') (DInt 2) (batch_InsertUnique (DStr ''a'') (DInt 1) (Batch (New True))))
       (snd (Insert ''b'' (DInt 0) (New True))))))) = {}"
proof -
  let ?B = "batch_Insert (DStr ''b'') (DInt 2) (batch_InsertUnique (DStr ''a'') (DInt 1) (Batch (New True)))"
  have h1: "schedule (jobs ?B) ?B"
    by (simp add: schedule_def)
  have h2: "distinct (insert_keys (jobs ?B))"
    by (simp add: insert_keys_def batch_Insert_def batch_InsertUnique_def Batch_def)
  have h3: "created ?B = fmempty" "updated ?B = fmempty"
    by (simp_all add: batch_Insert_def batch_InsertUnique_def Batch_def)
  show ?thesis
    using h1 h2 h3
      C8_created_updated [of "hd (jobs ?B)" ?B "New True" "jobs ?B" ?B "snd (Insert ''b'' (DInt 0) (New True))"]
    by simp
qed

text \<open>
  C8 as stated fails when two jobs of a batch have the same key: after Insert("k",1) and
  Insert("k",2) on the empty store, \<open>"k"\<close> is in created and in updated.
\<close>

theorem C8_counterexample:
  "DStr ''k'' \<in> fmdom' (created (fst (snd (Execute
       (jobs (batch_Insert (DStr ''k'') (DInt 2) (batch_Insert (DStr ''k'') (DInt 1) (Batch (New True)))))
       (batch_Insert (DStr ''k'') (DInt 2) (batch_Insert (DStr ''k'') (DInt 1) (Batch (New True))))
       (New True))))) \<and>
   DStr ''k'' \<in> fmdom' (updated (fst (snd (Execute
       (jobs (batch_Insert (DStr ''k'') (DInt 2) (batch_Insert (DStr ''k'') (DInt 1) (Batch (New True)))))
       (batch_Insert (DStr ''k'') (DInt 2) (batch_Insert (DStr ''k'') (DInt 1) (Batch (New True))))
       (New True)))))"
  by (simp add: Execute_batch Batch_def batch_Insert_def do_job_def insert_plain_quiet New_def)

lemma C3_jobs:
  "jobs (batch_Remove kc (batch_Insert kb vb (batch_InsertUnique ka va (Batch s))))
     = [\<lparr>method_j = oppInsertUnique, key = ka, value_j = va\<rparr>,
        \<lparr>method_j = oppInsert, key = kb, value_j = vb\<rparr>,
        \<lparr>method_j = oppRemove, key = kc, value_j = DNil\<rparr>]"
  by (simp add: batch_Remove_def batch_Insert_def batch_InsertUnique_def Batch_def)

lemma C3_run:
  assumes b: "fmlookup (syncMap s) (DStr ''b'') = Some (DInt 0)"
    and a: "fmlookup (syncMap s) (DStr ''a'') = None"
    and c: "fmlookup (syncMap s) (DStr ''c'') = None"
    and sched: "mset sched = mset [\<lparr>method_j = oppInsertUnique, key = DStr ''a'', value_j = DInt 1\<rparr>,
        \<lparr>method_j = oppInsert, key = DStr ''b'', value_j = DInt 2\<rparr>,
        \<lparr>method_j = oppRemove, key = DStr ''c'', value_j = DNil\<rparr>]"
  shows "\<exists>s'. run_jobs sched (B, s)
           = (Inr (), B\<lparr>created := fmupd (DStr ''a'') (DInt 1) (created B),
                        updated := fmupd (DStr ''b'') (DInt 2) (updated B)\<rparr>, s') \<and>
         events s' = events s \<and> count s' = count s + 1 \<and>
         onBatchInsert s' = onBatchInsert s \<and> onBatchUpdate s' = onBatchUpdate s \<and>
         fmlookup (syncMap s') (DStr ''a'') = Some (DInt 1) \<and>
         fmlookup (syncMap s') (DStr ''b'') = Some (DInt 2) \<and>
         fmlookup (syncMap s') (DStr ''c'') = None"
  using perm3 [OF sched] a b c
  by (auto simp add: do_job_cases)

text \<open>
  C3. On a store where \<open>"b"\<close> has the value 0 and \<open>"a"\<close> and \<open>"c"\<close> are absent, with batch
  callbacks that are not nil, the batch InsertUnique("a",1), Insert("b",2), Remove("c")
  returns from Execute, in every order of its jobs, having called the batch-insert
  callback once with \<open>{"a": 1}\<close>, then the batch-update callback once with \<open>{"b": 2}\<close>, and
  no other callback, so not the batch-remove callback. A batch all of whose jobs are
  without effect calls no callback and leaves the store as it was.
\<close>

theorem C3_batch_callbacks:
  assumes b: "fmlookup (syncMap s) (DStr ''b'') = Some (DInt 0)"
    and a: "fmlookup (syncMap s) (DStr ''a'') = None"
    and c: "fmlookup (syncMap s) (DStr ''c'') = None"
    and cb: "onBatchInsert s" "onBatchUpdate s"
    and B: "B = batch_Remove (DStr ''c'')
                 (batch_Insert (DStr ''b'') (DInt 2)
                   (batch_InsertUnique (DStr ''a'') (DInt 1) (Batch s)))"
    and sched: "schedule sched B"
  shows "fst (Execute sched B s) = Inr () \<and>
         events (snd (snd (Execute sched B s)))
           = events s @ [OnBatchInsert (fmupd (DStr ''a'') (DInt 1) fmempty),
                         OnBatchUpdate (fmupd (DStr ''b'') (DInt 2) fmempty)] \<and>
         (schedule sched_any b_any \<and> (\<forall>j \<in> set (jobs b_any). ineffective j s_any) \<and>
          created b_any = fmempty \<and> updated b_any = fmempty \<and> deleted b_any = fmempty \<longrightarrow>
            Execute sched_any b_any s_any = (Inr (), b_any, s_any))"
proof -
  have e: "created B = fmempty" "updated B = fmempty" "deleted B = fmempty"
    by (simp_all add: B batch_Remove_def batch_Insert_def batch_InsertUnique_def Batch_def)
  have "mset sched = mset [\<lparr>method_j = oppInsertUnique, key = DStr ''a'', value_j = DInt 1\<rparr>,
        \<lparr>method_j = oppInsert, key = DStr ''b'', value_j = DInt 2\<rparr>,
        \<lparr>method_j = oppRemove, key = DStr ''c'', value_j = DNil\<rparr>]"
    using sched unfolding schedule_def B C3_jobs .
  from C3_run [OF b a c this, of B] obtain s' where
    r: "run_jobs sched (B, s)
           = (Inr (), B\<lparr>created := fmupd (DStr ''a'') (DInt 1) (created B),
                        updated := fmupd (DStr ''b'') (DInt 2) (updated B)\<rparr>, s')"
    and s': "events s' = events s" "onBatchInsert s' = onBatchInsert s"
      "onBatchUpdate s' = onBatchUpdate s"
    by blast
  have scenario: "fst (Execute sched B s) = Inr () \<and>
         events (snd (snd (Execute sched B s)))
           = events s @ [OnBatchInsert (fmupd (DStr ''a'') (DInt 1) fmempty),
                         OnBatchUpdate (fmupd (DStr ''b'') (DInt 2) fmempty)]"
    using cb
    by (simp add: Execute_run_jobs [OF r] e s' fire_batch_def KV_Len_def
        fcard_finsert_if fcard_fempty)
  have quiet: "Execute sched_any b_any s_any = (Inr (), b_any, s_any)"
    if "schedule sched_any b_any" and i: "\<forall>j \<in> set (jobs b_any). ineffective j s_any"
      and e0: "created b_any = fmempty" "updated b_any = fmempty" "deleted b_any = fmempty"
  proof -
    have "set sched_any = set (jobs b_any)"
      using that(1) unfolding schedule_def by (rule mset_eq_setD)
    then have "\<forall>j \<in> set sched_any. ineffective j s_any"
      using i by simp
    then have "run_jobs sched_any (b_any, s_any) = (Inr (), b_any, s_any)"
      by (rule run_jobs_ineffective)
    from Execute_run_jobs [OF this] show ?thesis
      by (simp add: e0 fire_batch_empty)
  qed
  show ?thesis
    using scenario quiet by simp
qed

text \<open>
  C3 on the store that holds \<open>"b"\<close> with 0, the jobs taken in reverse order; and the
  batch InsertUnique("b",5), Remove("c") on the same store.
\<close>

theorem C3_witness:
  "fmlookup (syncMap (snd (Insert ''b'' (DInt 0) (New True)))) (DStr ''b'') = Some (DInt 0) \<and>
   fmlookup (syncMap (snd (Insert ''b'' (DInt 0) (New True)))) (DStr ''a'') = None \<and>
   fmlookup (syncMap (snd (Insert ''b'' (DInt 0) (New True)))) (DStr ''c'') = None \<and>
   onBatchInsert (snd (Insert ''b'' (DInt 0) (New True))) \<and>
   onBatchUpdate (snd (Insert ''b'' (DInt 0) (New True))) \<and>
   schedule [\<lparr>method_j = oppRemove, key = DStr ''c'', value_j = DNil\<rparr>,
             \<lparr>method_j = oppInsert, key = DStr ''b'', value_j = DInt 2\<rparr>,
             \<lparr>method_j = oppInsertUnique, key = DStr ''a'', value_j = DInt 1\<rparr>]
     (batch_Remove (DStr ''c'') (batch_Insert (DStr ''b'') (DInt 2)
        (batch_InsertUnique (DStr ''a'') (DInt 1) (Batch (snd (Insert ''b'' (DInt 0) (New True))))))) \<and>
   events (snd (snd (Execute
        [\<lparr>method_j = oppRemove, key = DStr ''c'', value_j = DNil\<rparr>,
         \<lparr>method_j = oppInsert, key = DStr ''b'', value_j = DInt 2\<rparr>,
         \<lparr>method_j = oppInsertUnique, key = DStr ''a'', value_j = DInt 1\<rparr>]
        (batch_Remove (DStr ''c'') (batch_Insert (DStr ''b'') (DInt 2)
           (batch_InsertUnique (DStr ''a'') (DInt 1) (Batch (snd (Insert ''b'' (DInt 0) (New True)))))))
        (snd (Insert ''b'' (DInt 0) (New True))))))
     = [OnInsert ''b'' (DInt 0),
        OnBatchInsert (fmupd (DStr ''a'') (DInt 1) fmempty),
        OnBatchUpdate (fmupd (DStr ''b'') (DInt 2) fmempty)] \<and>
   schedule (jobs (batch_Remove (DStr ''c'') (batch_InsertUnique (DStr ''b'') (DInt 5) (Batch (New True)))))
     (batch_Remove (DStr ''c'') (batch_InsertUnique (DStr ''b'') (DInt 5) (Batch (New True)))) \<and>
   ineffective \<lparr>method_j = oppInsertUnique, key = DStr ''b'', value_j = DInt 5\<rparr>
     (snd (Insert ''b'' (DInt 0) (New True))) \<and>
   ineffective \<lparr>method_j = oppRemove, key = DStr ''c'', value_j = DNil\<rparr>
     (snd (Insert ''b'' (DInt 0) (New True))) \<and>
   Execute (jobs (batch_Remove (DStr ''c'') (batch_InsertUnique (DStr ''b'') (DInt 5) (Batch (New True)))))
       (batch_Remove (DStr ''c'') (batch_InsertUnique (DStr ''b'') (DInt 5) (Batch (New True))))
       (snd (Insert ''b'' (DInt 0) (New True)))
     = (Inr (), batch_Remove (DStr ''c'') (batch_InsertUnique (DStr ''b'') (DInt 5) (Batch (New True))),
        snd (Insert ''b'' (DInt 0) (New True)))"
proof -
  let ?s = "snd (Insert ''b'' (DInt 0) (New True))"
  let ?sched = "[\<lparr>method_j = oppRemove, key = DStr ''c'', value_j = DNil\<rparr>,
             \<lparr>method_j = oppInsert, key = DStr ''b'', value_j = DInt 2\<rparr>,
             \<lparr>method_j = oppInsertUnique, key = DStr ''a'', value_j = DInt 1\<rparr>]"
  let ?B = "batch_Remove (DStr ''c'') (batch_Insert (DStr ''b'') (DInt 2)
        (batch_InsertUnique (DStr ''a'') (DInt 1) (Batch ?s)))"
  let ?Q = "batch_Remove (DStr ''c'') (batch_InsertUnique (DStr ''b'') (DInt 5) (Batch (New True)))"
  have s: "?s = (New True)\<lparr>syncMap := fmupd (DStr ''b'') (DInt 0) fmempty, count := 1,
                            events := [OnInsert ''b'' (DInt 0)]\<rparr>"
    by (simp add: Insert_absent New_def defaultCallback_def counter_New_def)
  have m: "syncMap ?s = fmupd (DStr ''b'') (DInt 0) fmempty"
    and ev: "events ?s = [OnInsert ''b'' (DInt 0)]"
    by (simp_all add: s)
  have h1: "fmlookup (syncMap ?s) (DStr ''b'') = Some (DInt 0)"
    and h2: "fmlookup (syncMap ?s) (DStr ''a'') = None"
    and h3: "fmlookup (syncMap ?s) (DStr ''c'') = None"
    by (simp_all add: m)
  have h4: "onBatchInsert ?s" and h5: "onBatchUpdate ?s"
    by (simp_all add: s) (simp_all add: New_def defaultBatchCallback_def)
  have h6: "schedule ?sched ?B"
    by (simp add: schedule_def C3_jobs)
  have h7: "schedule (jobs ?Q) ?Q"
    by (simp add: schedule_def)
  have i1: "ineffective \<lparr>method_j = oppInsertUnique, key = DStr ''b'', value_j = DInt 5\<rparr> ?s"
    and i2: "ineffective \<lparr>method_j = oppRemove, key = DStr ''c'', value_j = DNil\<rparr> ?s"
    by (simp_all add: ineffective_def m)
  have h8: "\<forall>j \<in> set (jobs ?Q). ineffective j ?s"
    using i1 i2 by (simp add: batch_Remove_def batch_InsertUnique_def Batch_def)
  have h9: "created ?Q = fmempty" "updated ?Q = fmempty" "deleted ?Q = fmempty"
    by (simp_all add: batch_Remove_def batch_InsertUnique_def Batch_def)
  show ?thesis
    using h1 h2 h3 h4 h5 h6 h7 h8 h9 i1 i2
      C3_batch_callbacks [where sched_any = "jobs ?Q" and b_any = ?Q and s_any = ?s,
        OF h1 h2 h3 h4 h5 refl h6]
    by (simp add: ev)
qed

end
